theory Spec2Isabelle
  imports Main "HOL-Library.Multiset"
begin

section \<open>Event model (src/src/App.tsx, lines 342-363)\<close>

text \<open>
  The tagged union \<open>WhiteboardEvent\<close>: the three stroke-bearing variants carry a
  \<open>strokeId\<close> (and a point \<open>x\<close>, \<open>y\<close> for start and move), \<open>undo\<close> carries
  \<open>targetStrokeId\<close>, \<open>redo\<close> carries \<open>targetUndoEventId\<close>. Identifiers are strings;
  the numbers \<open>x\<close>, \<open>y\<close> and \<open>seq\<close> are taken as integers (the client produces
  pointer coordinates and a counter).
\<close>

datatype WhiteboardEvent =
    Stroke_start string int int
  | Stroke_move string int int
  | Stroke_end string
  | Undo string
  | Redo string

text \<open>
  \<open>StoredEvent = WhiteboardEvent & {id, seq, userId}\<close>. The field \<open>id\<close> is named
  \<open>id_ev\<close> here, and the variant part is the field \<open>body\<close>.
\<close>

record StoredEvent =
  body :: WhiteboardEvent
  id_ev :: string
  seq :: int
  userId :: string

record CursorPresence =
  cursor_userId :: string
  cursor_x :: int
  cursor_y :: int
  color :: string

text \<open>A parsed frame of the socket: a presence frame (\<open>type = "cursor"\<close>) or an event.\<close>

datatype wire_msg = CursorMsg CursorPresence | EventMsg StoredEvent

text \<open>\<open>"strokeId" in e\<close> together with \<open>e.strokeId\<close>.\<close>

fun strokeId :: "WhiteboardEvent \<Rightarrow> string option" where
  "strokeId (Stroke_start s x y) = Some s"
| "strokeId (Stroke_move s x y) = Some s"
| "strokeId (Stroke_end s) = Some s"
| "strokeId (Undo t) = None"
| "strokeId (Redo t) = None"

section \<open>Client state\<close>

text \<open>
  The state of one \<open>App\<close> component: the React state \<open>events\<close> and \<open>cursors\<close>, the
  refs \<open>seenEventIds\<close>, \<open>seqRef\<close> and \<open>userIdRef\<close>, and \<open>outbox\<close>, the events handed
  to \<open>socketRef.current.send\<close> so far, oldest first.
\<close>

record app_state =
  events :: "StoredEvent list"
  seenEventIds :: "string set"
  seqRef :: int
  userIdRef :: string
  cursors :: "string \<rightharpoonup> CursorPresence"
  outbox :: "StoredEvent list"

definition init :: "string \<Rightarrow> app_state" where
  "init u = \<lparr>events = [], seenEventIds = {}, seqRef = 0, userIdRef = u,
             cursors = Map.empty, outbox = []\<rparr>"

section \<open>Event core (lines 468-484)\<close>

definition ingestEvent :: "StoredEvent \<Rightarrow> app_state \<Rightarrow> app_state" where
  "ingestEvent event st =
     (if id_ev event \<in> seenEventIds st then st
      else st\<lparr>seenEventIds := insert (id_ev event) (seenEventIds st),
              events := events st @ [event]\<rparr>)"

text \<open>
  \<open>createEvent\<close>: the result of \<open>uuid()\<close> is the parameter \<open>uuid\<close>; \<open>seqRef.current++\<close>
  yields the old counter and increments it.
\<close>

definition createEvent :: "string \<Rightarrow> WhiteboardEvent \<Rightarrow> app_state \<Rightarrow> StoredEvent \<times> app_state" where
  "createEvent uuid d st =
     (\<lparr>body = d, id_ev = uuid, seq = seqRef st, userId = userIdRef st\<rparr>,
      st\<lparr>seqRef := seqRef st + 1\<rparr>)"

definition broadcastEvent :: "StoredEvent \<Rightarrow> app_state \<Rightarrow> app_state" where
  "broadcastEvent event st =
     (let st' = ingestEvent event st in st'\<lparr>outbox := outbox st' @ [event]\<rparr>)"

section \<open>Presence and the message handler (lines 402-412)\<close>

text \<open>The updater passed to \<open>setCursors\<close>: \<open>{...prev, [data.userId]: data}\<close>.\<close>

definition update_cursor :: "CursorPresence \<Rightarrow> (string \<rightharpoonup> CursorPresence) \<Rightarrow> (string \<rightharpoonup> CursorPresence)" where
  "update_cursor d prev = prev(cursor_userId d \<mapsto> d)"

definition onmessage :: "wire_msg \<Rightarrow> app_state \<Rightarrow> app_state" where
  "onmessage m st =
     (case m of
        CursorMsg d \<Rightarrow>
          if cursor_userId d = userIdRef st then st
          else st\<lparr>cursors := update_cursor d (cursors st)\<rparr>
      | EventMsg e \<Rightarrow> ingestEvent e st)"

section \<open>Undo and redo requests (lines 543-563)\<close>

text \<open>
  The loops \<open>for (let i = events.length - 1; i >= 0; i--)\<close>: the third argument is
  \<open>i + 1\<close>, so the loop starts at \<open>length events\<close> and ends at \<open>0\<close>. The result is
  what the matching branch passes on before \<open>break\<close>, or \<open>None\<close> when the loop runs out.
\<close>

fun undo_scan :: "StoredEvent list \<Rightarrow> string \<Rightarrow> nat \<Rightarrow> string option" where
  "undo_scan evs u 0 = None"
| "undo_scan evs u (Suc i) =
     (case body (evs ! i) of
        Stroke_end s \<Rightarrow> if userId (evs ! i) = u then Some s else undo_scan evs u i
      | _ \<Rightarrow> undo_scan evs u i)"

fun redo_scan :: "StoredEvent list \<Rightarrow> string \<Rightarrow> nat \<Rightarrow> string option" where
  "redo_scan evs u 0 = None"
| "redo_scan evs u (Suc i) =
     (case body (evs ! i) of
        Undo t \<Rightarrow> if userId (evs ! i) = u then Some (id_ev (evs ! i)) else redo_scan evs u i
      | _ \<Rightarrow> redo_scan evs u i)"

definition handleUndo :: "string \<Rightarrow> app_state \<Rightarrow> app_state" where
  "handleUndo uuid st =
     (case undo_scan (events st) (userIdRef st) (length (events st)) of
        None \<Rightarrow> st
      | Some s \<Rightarrow> (let (ev, st') = createEvent uuid (Undo s) st in broadcastEvent ev st'))"

definition handleRedo :: "string \<Rightarrow> app_state \<Rightarrow> app_state" where
  "handleRedo uuid st =
     (case redo_scan (events st) (userIdRef st) (length (events st)) of
        None \<Rightarrow> st
      | Some t \<Rightarrow> (let (ev, st') = createEvent uuid (Redo t) st in broadcastEvent ev st'))"

text \<open>
  The tests of the two loops: a \<open>stroke_end\<close> event of user \<open>u\<close>, an \<open>undo\<close> event of
  user \<open>u\<close>.
\<close>

definition own_stroke_end :: "string \<Rightarrow> StoredEvent \<Rightarrow> bool" where
  "own_stroke_end u e = (case body e of Stroke_end s \<Rightarrow> userId e = u | _ \<Rightarrow> False)"

definition own_undo :: "string \<Rightarrow> StoredEvent \<Rightarrow> bool" where
  "own_undo u e = (case body e of Undo t \<Rightarrow> userId e = u | _ \<Rightarrow> False)"

text \<open>
  One input to the component: a frame from the socket, or a click on Undo or Redo
  (with the identifier \<open>uuid()\<close> returns if an event is created).
\<close>

datatype input = Message wire_msg | UndoClick string | RedoClick string

fun step :: "input \<Rightarrow> app_state \<Rightarrow> app_state" where
  "step (Message m) st = onmessage m st"
| "step (UndoClick uuid) st = handleUndo uuid st"
| "step (RedoClick uuid) st = handleRedo uuid st"

text \<open>The log is coherent: ids pairwise distinct, and the seen set is the set of logged ids.\<close>

definition coherent :: "app_state \<Rightarrow> bool" where
  "coherent st \<longleftrightarrow>
     distinct (map id_ev (events st)) \<and> seenEventIds st = set (map id_ev (events st))"

section \<open>Rendering (lines 428-464)\<close>

text \<open>
  The canvas is modelled by the calls made on its context, in order. \<open>redraw\<close> sorts a
  copy of the log with \<open>sort((a, b) => a.seq - b.seq)\<close>; the built-in sort is stable,
  and so is \<open>sort_key\<close>.
\<close>

datatype canvas_op = ClearRect | BeginPath | MoveTo int int | LineTo int int | Stroke | ClosePath

definition ordered :: "StoredEvent list \<Rightarrow> StoredEvent list" where
  "ordered evs = sort_key seq evs"

text \<open>First loop: \<open>if (e.type === "redo") redoneUndoIds.add(e.targetUndoEventId)\<close>.\<close>

fun redone_loop :: "StoredEvent list \<Rightarrow> string set \<Rightarrow> string set" where
  "redone_loop [] redone = redone"
| "redone_loop (e # es) redone =
     (case body e of
        Redo t \<Rightarrow> redone_loop es (insert t redone)
      | _ \<Rightarrow> redone_loop es redone)"

text \<open>Second loop: \<open>if (e.type === "undo" && !redoneUndoIds.has(e.id)) undoneStrokes.add(e.targetStrokeId)\<close>.\<close>

fun undone_loop :: "string set \<Rightarrow> StoredEvent list \<Rightarrow> string set \<Rightarrow> string set" where
  "undone_loop redone [] undone = undone"
| "undone_loop redone (e # es) undone =
     (case body e of
        Undo s \<Rightarrow> if id_ev e \<notin> redone then undone_loop redone es (insert s undone)
                  else undone_loop redone es undone
      | _ \<Rightarrow> undone_loop redone es undone)"

text \<open>The test before \<open>continue\<close>: \<open>"strokeId" in e && undoneStrokes.has(e.strokeId)\<close>.\<close>

definition skipped :: "string set \<Rightarrow> StoredEvent \<Rightarrow> bool" where
  "skipped undone e = (case strokeId (body e) of Some s \<Rightarrow> s \<in> undone | None \<Rightarrow> False)"

text \<open>The \<open>switch\<close>: undo and redo events match no case.\<close>

fun paint :: "WhiteboardEvent \<Rightarrow> canvas_op list" where
  "paint (Stroke_start s x y) = [BeginPath, MoveTo x y]"
| "paint (Stroke_move s x y) = [LineTo x y, Stroke]"
| "paint (Stroke_end s) = [ClosePath]"
| "paint (Undo t) = []"
| "paint (Redo t) = []"

fun draw_loop :: "string set \<Rightarrow> StoredEvent list \<Rightarrow> canvas_op list" where
  "draw_loop undone [] = []"
| "draw_loop undone (e # es) =
     (if skipped undone e then draw_loop undone es
      else paint (body e) @ draw_loop undone es)"

definition redoneUndoIds :: "StoredEvent list \<Rightarrow> string set" where
  "redoneUndoIds evs = redone_loop (ordered evs) {}"

definition undoneStrokes :: "StoredEvent list \<Rightarrow> string set" where
  "undoneStrokes evs = undone_loop (redoneUndoIds evs) (ordered evs) {}"

definition redraw :: "StoredEvent list \<Rightarrow> canvas_op list" where
  "redraw evs = ClearRect # draw_loop (undoneStrokes evs) (ordered evs)"

text \<open>The events of the third loop that reach the \<open>switch\<close>, in drawing order.\<close>

definition visible_events :: "StoredEvent list \<Rightarrow> StoredEvent list" where
  "visible_events evs = filter (\<lambda>e. \<not> skipped (undoneStrokes evs) e) (ordered evs)"

text \<open>
  The two sets as the specification words them (section 4.4, steps 1 and 2), to be
  compared with the loops above.
\<close>

definition spec_redoneUndoIds :: "StoredEvent list \<Rightarrow> string set" where
  "spec_redoneUndoIds log = {t. \<exists>e \<in> set log. body e = Redo t}"

definition spec_undoneStrokeIds :: "StoredEvent list \<Rightarrow> string set" where
  "spec_undoneStrokeIds log =
     {s. \<exists>e \<in> set log. body e = Undo s \<and> id_ev e \<notin> spec_redoneUndoIds log}"

section \<open>Relay (src/server.js)\<close>









section \<open>Ingestion\<close>

lemma ingestEvent_seen: "id_ev e \<in> seenEventIds st \<Longrightarrow> ingestEvent e st = st"
  by (simp add: ingestEvent_def)

lemma ingestEvent_fresh:
  "id_ev e \<notin> seenEventIds st \<Longrightarrow>
     events (ingestEvent e st) = events st @ [e] \<and>
     seenEventIds (ingestEvent e st) = insert (id_ev e) (seenEventIds st)"
  by (simp add: ingestEvent_def)

lemma ingestEvent_marks: "id_ev e \<in> seenEventIds (ingestEvent e st)"
  by (simp add: ingestEvent_def)

lemma ingestEvent_twice: "ingestEvent e (ingestEvent e st) = ingestEvent e st"
  by (rule ingestEvent_seen) (rule ingestEvent_marks)

lemma ingestEvent_coherent: "coherent st \<Longrightarrow> coherent (ingestEvent e st)"
  by (auto simp: coherent_def ingestEvent_def)

lemma ingestEvent_frame:
  "seqRef (ingestEvent e st) = seqRef st \<and> userIdRef (ingestEvent e st) = userIdRef st \<and>
   cursors (ingestEvent e st) = cursors st \<and> outbox (ingestEvent e st) = outbox st"
  by (simp add: ingestEvent_def)

lemma init_coherent: "coherent (init u)"
  by (simp add: coherent_def init_def)

lemma fold_ingest_coherent: "coherent st \<Longrightarrow> coherent (fold ingestEvent h st)"
  by (induction h arbitrary: st) (simp_all add: ingestEvent_coherent)

lemma broadcastEvent_coherent: "coherent st \<Longrightarrow> coherent (broadcastEvent e st)"
  using ingestEvent_coherent [of st e] by (simp add: broadcastEvent_def coherent_def Let_def)

lemma createEvent_coherent: "coherent st \<Longrightarrow> coherent (snd (createEvent n d st))"
  by (simp add: createEvent_def coherent_def)

lemma handleUndo_unfold:
  "handleUndo n st =
     (case undo_scan (events st) (userIdRef st) (length (events st)) of
        None \<Rightarrow> st
      | Some s \<Rightarrow> broadcastEvent (fst (createEvent n (Undo s) st)) (snd (createEvent n (Undo s) st)))"
  by (simp add: handleUndo_def split_beta split: option.splits)

lemma handleRedo_unfold:
  "handleRedo n st =
     (case redo_scan (events st) (userIdRef st) (length (events st)) of
        None \<Rightarrow> st
      | Some t \<Rightarrow> broadcastEvent (fst (createEvent n (Redo t) st)) (snd (createEvent n (Redo t) st)))"
  by (simp add: handleRedo_def split_beta split: option.splits)

lemma handleUndo_coherent: "coherent st \<Longrightarrow> coherent (handleUndo n st)"
  by (simp add: handleUndo_unfold broadcastEvent_coherent createEvent_coherent split: option.splits)

lemma handleRedo_coherent: "coherent st \<Longrightarrow> coherent (handleRedo n st)"
  by (simp add: handleRedo_unfold broadcastEvent_coherent createEvent_coherent split: option.splits)

lemma onmessage_coherent: "coherent st \<Longrightarrow> coherent (onmessage m st)"
  by (cases m) (auto simp: onmessage_def ingestEvent_coherent, simp add: coherent_def)

lemma step_coherent: "coherent st \<Longrightarrow> coherent (step i st)"
  by (cases i) (simp_all add: onmessage_coherent handleUndo_coherent handleRedo_coherent)

lemma run_coherent: "coherent st \<Longrightarrow> coherent (fold step is st)"
  by (induction "is" arbitrary: st) (simp_all add: step_coherent)

lemma filter_key_singleton:
  "distinct (map f xs) \<Longrightarrow> k \<in> f ` set xs \<Longrightarrow> length (filter (\<lambda>x. f x = k) xs) = 1"
proof (induction xs)
  case Nil
  then show ?case by simp
next
  case (Cons a xs)
  show ?case
  proof (cases "f a = k")
    case True
    from Cons.prems have "f a \<notin> f ` set xs" by simp
    with True have "\<forall>x \<in> set xs. f x \<noteq> k" by blast
    then have "filter (\<lambda>x. f x = k) xs = []"
      by (simp add: filter_empty_conv)
    with True show ?thesis by simp
  next
    case False
    with Cons show ?thesis by auto
  qed
qed

lemma ingest_one_id:
  assumes "coherent st"
  shows "length (filter (\<lambda>x. id_ev x = id_ev e) (events (ingestEvent e st))) = 1"
proof (cases "id_ev e \<in> seenEventIds st")
  case True
  with assms have "distinct (map id_ev (events st))" and "id_ev e \<in> id_ev ` set (events st)"
    by (simp_all add: coherent_def)
  then have "length (filter (\<lambda>x. id_ev x = id_ev e) (events st)) = 1"
    by (rule filter_key_singleton)
  with True show ?thesis by (simp add: ingestEvent_seen)
next
  case False
  with assms have "id_ev e \<notin> id_ev ` set (events st)"
    by (simp add: coherent_def)
  then have "\<forall>x \<in> set (events st). id_ev x \<noteq> id_ev e" by (metis imageI)
  then have "filter (\<lambda>x. id_ev x = id_ev e) (events st) = []"
    by (simp add: filter_empty_conv)
  with False show ?thesis by (simp add: ingestEvent_fresh)
qed

lemma ingest_one_copy:
  assumes "coherent st" and "\<forall>x \<in> set (events st). id_ev x = id_ev e \<longrightarrow> x = e"
  shows "count_list (events (ingestEvent e st)) e = 1"
proof -
  have "filter (\<lambda>x. id_ev x = id_ev e) (events (ingestEvent e st)) =
        filter ((=) e) (events (ingestEvent e st))"
  proof (rule filter_cong [OF refl])
    fix x assume "x \<in> set (events (ingestEvent e st))"
    then have "x \<in> set (events st) \<or> x = e"
      by (auto simp: ingestEvent_def split: if_splits)
    with assms(2) show "(id_ev x = id_ev e) = (e = x)" by auto
  qed
  with ingest_one_id [OF assms(1), of e] show ?thesis
    by (simp add: count_list_eq_length_filter)
qed

text \<open>
  Claim C2. Ingestion is idempotent: when the id of \<open>e\<close> is already in the seen set,
  \<open>ingestEvent e\<close> returns the state as it is (log, seen set and everything else), so a
  second call after a first changes nothing, and neither the visible events nor the
  drawing change. In a coherent state (every state the component reaches), the log then
  holds exactly one event with the id of \<open>e\<close>; that event is \<open>e\<close> itself, exactly once,
  when ids identify events (each logged event with the id of \<open>e\<close> is \<open>e\<close>, the
  data model's invariant on ids).
\<close>

theorem ingest_idempotent:
  "(id_ev e \<in> seenEventIds st \<longrightarrow> ingestEvent e st = st) \<and>
   ingestEvent e (ingestEvent e st) = ingestEvent e st \<and>
   visible_events (events (ingestEvent e (ingestEvent e st))) = visible_events (events (ingestEvent e st)) \<and>
   redraw (events (ingestEvent e (ingestEvent e st))) = redraw (events (ingestEvent e st)) \<and>
   (coherent st \<longrightarrow>
      length (filter (\<lambda>x. id_ev x = id_ev e) (events (ingestEvent e (ingestEvent e st)))) = 1) \<and>
   (coherent st \<and> (\<forall>x \<in> set (events st). id_ev x = id_ev e \<longrightarrow> x = e) \<longrightarrow>
      count_list (events (ingestEvent e (ingestEvent e st))) e = 1)"
  by (simp add: ingestEvent_twice ingestEvent_seen ingest_one_id ingest_one_copy)

theorem ingest_idempotent_witness:
  "let e = \<lparr>body = Stroke_end ''s1'', id_ev = ''a'', seq = 2, userId = ''u1''\<rparr>;
       st = ingestEvent e (init ''u1'')
   in id_ev e \<in> seenEventIds st \<and> coherent st \<and> events st = [e] \<and>
      ingestEvent e st = st \<and>
      count_list (events (ingestEvent e (ingestEvent e st))) e = 1"
  using ingest_idempotent [of "\<lparr>body = Stroke_end ''s1'', id_ev = ''a'', seq = 2, userId = ''u1''\<rparr>"
      "ingestEvent \<lparr>body = Stroke_end ''s1'', id_ev = ''a'', seq = 2, userId = ''u1''\<rparr> (init ''u1'')"]
  by (simp add: Let_def ingestEvent_def init_def coherent_def)

text \<open>
  Claim C10. Starting from the empty state, every sequence of \<open>ingestEvent\<close> calls, and
  every sequence of inputs to the component (socket frames, undo and redo clicks, which
  change the log and the seen set through \<open>ingestEvent\<close> only), ends in a state whose
  logged ids are pairwise distinct and whose seen set is exactly the set of logged ids;
  \<open>ingestEvent\<close> keeps that property of any state that has it.
\<close>

theorem log_seen_coherence:
  "distinct (map id_ev (events (fold ingestEvent h (init u)))) \<and>
   seenEventIds (fold ingestEvent h (init u)) = id_ev ` set (events (fold ingestEvent h (init u))) \<and>
   coherent (fold step inputs (init u)) \<and>
   (coherent st \<longrightarrow> coherent (ingestEvent e st))"
proof -
  have "coherent (fold ingestEvent h (init u))"
    by (rule fold_ingest_coherent) (rule init_coherent)
  then have a: "distinct (map id_ev (events (fold ingestEvent h (init u)))) \<and>
      seenEventIds (fold ingestEvent h (init u)) = id_ev ` set (events (fold ingestEvent h (init u)))"
    by (simp add: coherent_def)
  have b: "coherent (fold step inputs (init u))"
    by (rule run_coherent) (rule init_coherent)
  have c: "coherent st \<longrightarrow> coherent (ingestEvent e st)"
    by (simp add: ingestEvent_coherent)
  from a b c show ?thesis by blast
qed

theorem log_seen_coherence_witness:
  "let e1 = \<lparr>body = Stroke_end ''s1'', id_ev = ''a'', seq = 2, userId = ''u2''\<rparr>;
       e2 = \<lparr>body = Undo ''s1'', id_ev = ''b'', seq = 3, userId = ''u2''\<rparr>;
       st = fold ingestEvent [e1, e2, e1] (init ''u1'')
   in coherent (init ''u1'') \<and> coherent (ingestEvent e1 (init ''u1'')) \<and>
      events st = [e1, e2] \<and> seenEventIds st = {''a'', ''b''}"
  using log_seen_coherence [of
      "[\<lparr>body = Stroke_end ''s1'', id_ev = ''a'', seq = 2, userId = ''u2''\<rparr>,
        \<lparr>body = Undo ''s1'', id_ev = ''b'', seq = 3, userId = ''u2''\<rparr>,
        \<lparr>body = Stroke_end ''s1'', id_ev = ''a'', seq = 2, userId = ''u2''\<rparr>]" "''u1''" "[]"
      "init ''u1''" "\<lparr>body = Stroke_end ''s1'', id_ev = ''a'', seq = 2, userId = ''u2''\<rparr>"]
  by (simp add: Let_def ingestEvent_def init_def coherent_def)

section \<open>Visibility\<close>

lemma set_ordered: "set (ordered log) = set log"
  by (simp add: ordered_def)

lemma redone_loop_set: "redone_loop es acc = acc \<union> {t. \<exists>e \<in> set es. body e = Redo t}"
  by (induction es arbitrary: acc) (auto split: WhiteboardEvent.splits)

lemma undone_loop_set:
  "undone_loop R es acc = acc \<union> {s. \<exists>e \<in> set es. body e = Undo s \<and> id_ev e \<notin> R}"
  by (induction es arbitrary: acc) (auto split: WhiteboardEvent.splits)

lemma redoneUndoIds_spec: "redoneUndoIds log = spec_redoneUndoIds log"
  by (simp add: redoneUndoIds_def spec_redoneUndoIds_def redone_loop_set set_ordered)

lemma undoneStrokes_spec: "undoneStrokes log = spec_undoneStrokeIds log"
  by (simp add: undoneStrokes_def spec_undoneStrokeIds_def undone_loop_set set_ordered
      redoneUndoIds_spec)


lemma visible_member:
  "e \<in> set (visible_events log) \<longleftrightarrow> e \<in> set log \<and> \<not> skipped (undoneStrokes log) e"
  by (auto simp: visible_events_def set_ordered)

text \<open>
  The scenario of the specification: a stroke of two points, then an undo, then a redo of
  that undo, arriving out of order.
\<close>

lemma scenario_undo:
  "redraw [\<lparr>body = Undo ''S'', id_ev = ''d'', seq = 3, userId = ''u1''\<rparr>,
           \<lparr>body = Stroke_move ''S'' 10 10, id_ev = ''b'', seq = 1, userId = ''u1''\<rparr>,
           \<lparr>body = Stroke_start ''S'' 0 0, id_ev = ''a'', seq = 0, userId = ''u1''\<rparr>,
           \<lparr>body = Stroke_end ''S'', id_ev = ''c'', seq = 2, userId = ''u1''\<rparr>] = [ClearRect]"
  by (simp add: redraw_def undoneStrokes_def redoneUndoIds_def ordered_def skipped_def)

lemma scenario_redo:
  "redraw [\<lparr>body = Redo ''d'', id_ev = ''e'', seq = 4, userId = ''u1''\<rparr>,
           \<lparr>body = Stroke_end ''S'', id_ev = ''c'', seq = 2, userId = ''u1''\<rparr>,
           \<lparr>body = Undo ''S'', id_ev = ''d'', seq = 3, userId = ''u1''\<rparr>,
           \<lparr>body = Stroke_move ''S'' 10 10, id_ev = ''b'', seq = 1, userId = ''u1''\<rparr>,
           \<lparr>body = Stroke_start ''S'' 0 0, id_ev = ''a'', seq = 0, userId = ''u1''\<rparr>] =
     [ClearRect, BeginPath, MoveTo 0 0, LineTo 10 10, Stroke, ClosePath]"
  by (simp add: redraw_def undoneStrokes_def redoneUndoIds_def ordered_def skipped_def)



section \<open>Undo and redo in the drawing\<close>

lemma undone_iff:
  "S \<in> undoneStrokes log \<longleftrightarrow>
     (\<exists>u \<in> set log. body u = Undo S \<and> (\<forall>r \<in> set log. body r \<noteq> Redo (id_ev u)))"
  by (auto simp: undoneStrokes_spec spec_undoneStrokeIds_def spec_redoneUndoIds_def)

lemma undone_hides:
  "S \<in> undoneStrokes log \<Longrightarrow> strokeId (body e) = Some S \<Longrightarrow> e \<notin> set (visible_events log)"
  by (simp add: visible_member skipped_def)

text \<open>
  Claim C6. Let the log hold two undo events \<open>u1\<close> and \<open>u2\<close>, both targeting stroke
  \<open>S\<close>. While the log has no redo event for the id of one of them, \<open>S\<close> is in the set
  of undone strokes and no event of \<open>S\<close> is drawn, whatever redo exists for the other.
  If \<open>S\<close> is not undone, then redo events exist for both ids. And \<open>S\<close> is drawn
  again as soon as every undo event targeting it has a redo event.
\<close>

theorem multi_undo_requires_full_redo:
  assumes "u1 \<in> set log" and "u2 \<in> set log"
    and "body u1 = Undo S" and "body u2 = Undo S"
  shows "((\<forall>r \<in> set log. body r \<noteq> Redo (id_ev u1)) \<or> (\<forall>r \<in> set log. body r \<noteq> Redo (id_ev u2))
            \<longrightarrow> S \<in> undoneStrokes log \<and>
                (\<forall>e \<in> set log. strokeId (body e) = Some S \<longrightarrow> e \<notin> set (visible_events log))) \<and>
         (S \<notin> undoneStrokes log
            \<longrightarrow> (\<exists>r \<in> set log. body r = Redo (id_ev u1)) \<and> (\<exists>r \<in> set log. body r = Redo (id_ev u2))) \<and>
         ((\<forall>u \<in> set log. body u = Undo S \<longrightarrow> (\<exists>r \<in> set log. body r = Redo (id_ev u)))
            \<longrightarrow> S \<notin> undoneStrokes log \<and>
                (\<forall>e \<in> set log. strokeId (body e) = Some S \<longrightarrow> e \<in> set (visible_events log)))"
proof -
  have a: "S \<in> undoneStrokes log"
    if "(\<forall>r \<in> set log. body r \<noteq> Redo (id_ev u1)) \<or> (\<forall>r \<in> set log. body r \<noteq> Redo (id_ev u2))"
    using that assms(1-4) unfolding undone_iff by blast
  have b: "(\<exists>r \<in> set log. body r = Redo (id_ev u1)) \<and> (\<exists>r \<in> set log. body r = Redo (id_ev u2))"
    if "S \<notin> undoneStrokes log"
    using that assms(1-4) unfolding undone_iff by blast
  have c: "S \<notin> undoneStrokes log"
    if "\<forall>u \<in> set log. body u = Undo S \<longrightarrow> (\<exists>r \<in> set log. body r = Redo (id_ev u))"
    using that unfolding undone_iff by blast
  have d: "\<forall>e \<in> set log. strokeId (body e) = Some S \<longrightarrow> e \<in> set (visible_events log)"
    if "S \<notin> undoneStrokes log"
    using that by (simp add: visible_member skipped_def)
  have e: "\<forall>e \<in> set log. strokeId (body e) = Some S \<longrightarrow> e \<notin> set (visible_events log)"
    if "S \<in> undoneStrokes log"
    using that by (simp add: undone_hides)
  from a b c d e show ?thesis by blast
qed

theorem multi_undo_requires_full_redo_witness:
  "let e = \<lparr>body = Stroke_end ''S'', id_ev = ''c'', seq = 0, userId = ''u1''\<rparr>;
       u1 = \<lparr>body = Undo ''S'', id_ev = ''d1'', seq = 1, userId = ''u1''\<rparr>;
       u2 = \<lparr>body = Undo ''S'', id_ev = ''d2'', seq = 2, userId = ''u1''\<rparr>;
       r1 = \<lparr>body = Redo ''d1'', id_ev = ''r1'', seq = 3, userId = ''u1''\<rparr>;
       log = [e, u1, u2, r1]
   in u1 \<in> set log \<and> u2 \<in> set log \<and> id_ev u1 \<noteq> id_ev u2 \<and>
      ''S'' \<in> undoneStrokes log \<and> e \<notin> set (visible_events log)"
  using multi_undo_requires_full_redo [of
      "\<lparr>body = Undo ''S'', id_ev = ''d1'', seq = 1, userId = ''u1''\<rparr>"
      "[\<lparr>body = Stroke_end ''S'', id_ev = ''c'', seq = 0, userId = ''u1''\<rparr>,
        \<lparr>body = Undo ''S'', id_ev = ''d1'', seq = 1, userId = ''u1''\<rparr>,
        \<lparr>body = Undo ''S'', id_ev = ''d2'', seq = 2, userId = ''u1''\<rparr>,
        \<lparr>body = Redo ''d1'', id_ev = ''r1'', seq = 3, userId = ''u1''\<rparr>]"
      "\<lparr>body = Undo ''S'', id_ev = ''d2'', seq = 2, userId = ''u1''\<rparr>" "''S''"]
  by (simp add: Let_def)

section \<open>Ordering\<close>

lemma ordered_sorted: "sorted (map seq (ordered log))"
  by (simp add: ordered_def)

lemma ordered_mset: "mset (ordered log) = mset log"
  by (simp add: ordered_def)

lemma ordered_stable: "filter (\<lambda>e. seq e = k) (ordered log) = filter (\<lambda>e. seq e = k) log"
  by (simp add: ordered_def sort_key_stable)

lemma coherent_distinct: "coherent st \<Longrightarrow> distinct (events st)"
  by (simp add: coherent_def distinct_map)

lemma ordered_eq_iff:
  assumes "mset l1 = mset l2"
  shows "ordered l1 = ordered l2 \<longleftrightarrow>
         (\<forall>k. filter (\<lambda>e. seq e = k) l1 = filter (\<lambda>e. seq e = k) l2)"
proof
  assume eq: "ordered l1 = ordered l2"
  show "\<forall>k. filter (\<lambda>e. seq e = k) l1 = filter (\<lambda>e. seq e = k) l2"
  proof
    fix k
    have "filter (\<lambda>e. seq e = k) l1 = filter (\<lambda>e. seq e = k) (ordered l1)"
      by (simp add: ordered_stable)
    also have "\<dots> = filter (\<lambda>e. seq e = k) l2"
      by (simp add: eq ordered_stable)
    finally show "filter (\<lambda>e. seq e = k) l1 = filter (\<lambda>e. seq e = k) l2" .
  qed
next
  assume ties: "\<forall>k. filter (\<lambda>e. seq e = k) l1 = filter (\<lambda>e. seq e = k) l2"
  have "sort_key seq l1 = ordered l2"
  proof (rule properties_for_sort_key)
    show "mset (ordered l2) = mset l1" by (simp add: ordered_mset assms)
    show "sorted (map seq (ordered l2))" by (rule ordered_sorted)
    fix x assume "x \<in> set (ordered l2)"
    have "filter (\<lambda>e. seq e = seq x) (ordered l2) = filter (\<lambda>e. seq e = seq x) l1"
      by (simp add: ordered_stable ties)
    then show "filter (\<lambda>e. seq x = seq e) (ordered l2) = filter (\<lambda>e. seq x = seq e) l1"
      by (simp add: eq_commute)
  qed
  then show "ordered l1 = ordered l2" by (simp add: ordered_def)
qed

lemma ordered_inj:
  assumes "mset l1 = mset l2" and "inj_on seq (set l1)"
  shows "ordered l1 = ordered l2"
proof -
  have "sort_key seq l1 = ordered l2"
    by (rule sort_key_inj_key_eq) (simp_all add: assms ordered_mset ordered_sorted)
  then show ?thesis by (simp add: ordered_def)
qed

text \<open>
  Claim C3 as stated fails: two histories admit the same two events, both with
  \<open>seq = 0\<close> (two participants start counting at zero), in opposite orders; the
  sorted sequences differ, since the stable sort keeps arrival order among equal keys.
\<close>

theorem order_determinism_counterexample:
  "set (events (fold ingestEvent
      [\<lparr>body = Stroke_start ''s1'' 0 0, id_ev = ''a'', seq = 0, userId = ''u1''\<rparr>,
       \<lparr>body = Stroke_start ''s2'' 5 5, id_ev = ''b'', seq = 0, userId = ''u2''\<rparr>] (init ''u1'')))
   = set (events (fold ingestEvent
      [\<lparr>body = Stroke_start ''s2'' 5 5, id_ev = ''b'', seq = 0, userId = ''u2''\<rparr>,
       \<lparr>body = Stroke_start ''s1'' 0 0, id_ev = ''a'', seq = 0, userId = ''u1''\<rparr>] (init ''u1''))) \<and>
   ordered (events (fold ingestEvent
      [\<lparr>body = Stroke_start ''s1'' 0 0, id_ev = ''a'', seq = 0, userId = ''u1''\<rparr>,
       \<lparr>body = Stroke_start ''s2'' 5 5, id_ev = ''b'', seq = 0, userId = ''u2''\<rparr>] (init ''u1'')))
   \<noteq> ordered (events (fold ingestEvent
      [\<lparr>body = Stroke_start ''s2'' 5 5, id_ev = ''b'', seq = 0, userId = ''u2''\<rparr>,
       \<lparr>body = Stroke_start ''s1'' 0 0, id_ev = ''a'', seq = 0, userId = ''u1''\<rparr>] (init ''u1'')))"
  by (simp add: ingestEvent_def init_def ordered_def insert_commute)

text \<open>
  Claim C3, amended. For two ingestion histories that admit the same set of events, the
  sort by \<open>seq\<close> gives the same sequence exactly when, for each value of \<open>seq\<close>, the
  events with that value stand in the same relative order in both logs; in particular
  whenever no two events of the log share a \<open>seq\<close>.
\<close>

theorem order_determinism_amended:
  assumes "set (events (fold ingestEvent h1 (init u))) = set (events (fold ingestEvent h2 (init v)))"
  shows "(ordered (events (fold ingestEvent h1 (init u))) = ordered (events (fold ingestEvent h2 (init v)))
           \<longleftrightarrow> (\<forall>k. filter (\<lambda>e. seq e = k) (events (fold ingestEvent h1 (init u)))
                     = filter (\<lambda>e. seq e = k) (events (fold ingestEvent h2 (init v))))) \<and>
         (inj_on seq (set (events (fold ingestEvent h1 (init u))))
           \<longrightarrow> ordered (events (fold ingestEvent h1 (init u))) = ordered (events (fold ingestEvent h2 (init v))))"
proof -
  have "distinct (events (fold ingestEvent h1 (init u)))"
    and "distinct (events (fold ingestEvent h2 (init v)))"
    by (simp_all add: coherent_distinct fold_ingest_coherent init_coherent)
  with assms have m: "mset (events (fold ingestEvent h1 (init u))) = mset (events (fold ingestEvent h2 (init v)))"
    by (simp add: set_eq_iff_mset_eq_distinct)
  show ?thesis
    using ordered_eq_iff [OF m] ordered_inj [OF m] by blast
qed


theorem order_determinism_amended_witness:
  "let a = \<lparr>body = Stroke_start ''s1'' 0 0, id_ev = ''a'', seq = 0, userId = ''u1''\<rparr>;
       b = \<lparr>body = Stroke_start ''s2'' 5 5, id_ev = ''b'', seq = 1, userId = ''u2''\<rparr>;
       l1 = events (fold ingestEvent [a, b] (init ''u1''));
       l2 = events (fold ingestEvent [b, a] (init ''u2''))
   in set l1 = set l2 \<and> inj_on seq (set l1) \<and> l1 \<noteq> l2 \<and> ordered l1 = ordered l2"
  using order_determinism_amended [of
      "[\<lparr>body = Stroke_start ''s1'' 0 0, id_ev = ''a'', seq = 0, userId = ''u1''\<rparr>,
        \<lparr>body = Stroke_start ''s2'' 5 5, id_ev = ''b'', seq = 1, userId = ''u2''\<rparr>]" "''u1''"
      "[\<lparr>body = Stroke_start ''s2'' 5 5, id_ev = ''b'', seq = 1, userId = ''u2''\<rparr>,
        \<lparr>body = Stroke_start ''s1'' 0 0, id_ev = ''a'', seq = 0, userId = ''u1''\<rparr>]" "''u2''"]
  by (simp add: Let_def ingestEvent_def init_def insert_commute)

section \<open>Undo and redo requests\<close>

lemma undo_scan_step:
  "\<not> own_stroke_end u (evs ! i) \<Longrightarrow> undo_scan evs u (Suc i) = undo_scan evs u i"
  by (simp add: own_stroke_end_def split: WhiteboardEvent.splits)

lemma undo_scan_hit:
  "body (evs ! j) = Stroke_end s \<Longrightarrow> userId (evs ! j) = u \<Longrightarrow> undo_scan evs u (Suc j) = Some s"
  by simp

lemma undo_scan_skip:
  "n \<le> m \<Longrightarrow> \<forall>i. n \<le> i \<and> i < m \<longrightarrow> \<not> own_stroke_end u (evs ! i) \<Longrightarrow>
     undo_scan evs u m = undo_scan evs u n"
proof (induction m)
  case 0
  then show ?case by simp
next
  case (Suc m)
  show ?case
  proof (cases "n = Suc m")
    case True
    then show ?thesis by simp
  next
    case False
    with Suc.prems have le: "n \<le> m" and no: "\<not> own_stroke_end u (evs ! m)" by simp_all
    from no have "undo_scan evs u (Suc m) = undo_scan evs u m" by (rule undo_scan_step)
    also from le Suc.prems(2) have "\<dots> = undo_scan evs u n" by (intro Suc.IH) simp_all
    finally show ?thesis .
  qed
qed

lemma undo_scan_prefix: "n \<le> length xs \<Longrightarrow> undo_scan (xs @ ys) u n = undo_scan xs u n"
  by (induction n) (simp_all add: nth_append split: WhiteboardEvent.splits)

lemma undo_scan_append:
  assumes "\<forall>e \<in> set ys. \<not> own_stroke_end u e"
  shows "undo_scan (xs @ ys) u (length (xs @ ys)) = undo_scan xs u (length xs)"
proof -
  have "\<forall>i. length xs \<le> i \<and> i < length (xs @ ys) \<longrightarrow> \<not> own_stroke_end u ((xs @ ys) ! i)"
    using assms by (auto simp: nth_append)
  then have "undo_scan (xs @ ys) u (length (xs @ ys)) = undo_scan (xs @ ys) u (length xs)"
    by (intro undo_scan_skip) simp_all
  then show ?thesis by (simp add: undo_scan_prefix)
qed

lemma undo_scan_last:
  assumes "j < length evs" and "body (evs ! j) = Stroke_end s" and "userId (evs ! j) = u"
    and "\<forall>k. j < k \<and> k < length evs \<longrightarrow> \<not> own_stroke_end u (evs ! k)"
  shows "undo_scan evs u (length evs) = Some s"
proof -
  have "undo_scan evs u (length evs) = undo_scan evs u (Suc j)"
    using assms(1,4) by (intro undo_scan_skip) auto
  with assms(2,3) show ?thesis by (simp only: undo_scan_hit)
qed

lemma undo_scan_none:
  assumes "\<forall>e \<in> set evs. \<not> own_stroke_end u e"
  shows "undo_scan evs u (length evs) = None"
proof -
  have "undo_scan evs u (length evs) = undo_scan evs u 0"
    using assms by (intro undo_scan_skip) auto
  then show ?thesis by simp
qed

lemma redo_scan_step:
  "\<not> own_undo u (evs ! i) \<Longrightarrow> redo_scan evs u (Suc i) = redo_scan evs u i"
  by (simp add: own_undo_def split: WhiteboardEvent.splits)

lemma redo_scan_hit:
  "body (evs ! j) = Undo t \<Longrightarrow> userId (evs ! j) = u \<Longrightarrow>
     redo_scan evs u (Suc j) = Some (id_ev (evs ! j))"
  by simp

lemma redo_scan_skip:
  "n \<le> m \<Longrightarrow> \<forall>i. n \<le> i \<and> i < m \<longrightarrow> \<not> own_undo u (evs ! i) \<Longrightarrow>
     redo_scan evs u m = redo_scan evs u n"
proof (induction m)
  case 0
  then show ?case by simp
next
  case (Suc m)
  show ?case
  proof (cases "n = Suc m")
    case True
    then show ?thesis by simp
  next
    case False
    with Suc.prems have le: "n \<le> m" and no: "\<not> own_undo u (evs ! m)" by simp_all
    from no have "redo_scan evs u (Suc m) = redo_scan evs u m" by (rule redo_scan_step)
    also from le Suc.prems(2) have "\<dots> = redo_scan evs u n" by (intro Suc.IH) simp_all
    finally show ?thesis .
  qed
qed

lemma redo_scan_last:
  assumes "j < length evs" and "body (evs ! j) = Undo t" and "userId (evs ! j) = u"
    and "\<forall>k. j < k \<and> k < length evs \<longrightarrow> \<not> own_undo u (evs ! k)"
  shows "redo_scan evs u (length evs) = Some (id_ev (evs ! j))"
proof -
  have "redo_scan evs u (length evs) = redo_scan evs u (Suc j)"
    using assms(1,4) by (intro redo_scan_skip) auto
  with assms(2,3) show ?thesis by (simp only: redo_scan_hit)
qed

lemma redo_scan_none:
  assumes "\<forall>e \<in> set evs. \<not> own_undo u e"
  shows "redo_scan evs u (length evs) = None"
proof -
  have "redo_scan evs u (length evs) = redo_scan evs u 0"
    using assms by (intro redo_scan_skip) auto
  then show ?thesis by simp
qed

lemma fold_ingest_frame:
  "seqRef (fold ingestEvent h st) = seqRef st \<and> userIdRef (fold ingestEvent h st) = userIdRef st \<and>
   outbox (fold ingestEvent h st) = outbox st"
  by (induction h arbitrary: st) (simp_all add: ingestEvent_frame)

lemma ingestEvent_events:
  "events (ingestEvent e st) = events st \<or> events (ingestEvent e st) = events st @ [e]"
  by (simp add: ingestEvent_def)

lemma fold_ingest_events:
  "\<exists>ys. events (fold ingestEvent h st) = events st @ ys \<and> set ys \<subseteq> set h"
proof (induction h arbitrary: st)
  case Nil
  then show ?case by simp
next
  case (Cons e h)
  from Cons.IH [of "ingestEvent e st"] obtain ys where
    ys: "events (fold ingestEvent h (ingestEvent e st)) = events (ingestEvent e st) @ ys"
      "set ys \<subseteq> set h" by blast
  from ingestEvent_events [of e st] show ?case
  proof
    assume "events (ingestEvent e st) = events st"
    with ys show ?thesis by auto
  next
    assume "events (ingestEvent e st) = events st @ [e]"
    with ys have "events (fold ingestEvent (e # h) st) = events st @ (e # ys)"
      and "set (e # ys) \<subseteq> set (e # h)" by auto
    then show ?thesis by blast
  qed
qed

lemma handleUndo_hit:
  assumes "undo_scan (events st) (userIdRef st) (length (events st)) = Some s"
  shows "outbox (handleUndo n st) = outbox st @ [\<lparr>body = Undo s, id_ev = n, seq = seqRef st, userId = userIdRef st\<rparr>]"
    and "seqRef (handleUndo n st) = seqRef st + 1"
    and "userIdRef (handleUndo n st) = userIdRef st"
    and "\<exists>ys. events (handleUndo n st) = events st @ ys \<and> (\<forall>e \<in> set ys. \<not> own_stroke_end (userIdRef st) e)"
  using assms
  by (simp_all add: handleUndo_unfold createEvent_def broadcastEvent_def Let_def ingestEvent_def
      own_stroke_end_def)

lemma handleRedo_hit:
  assumes "redo_scan (events st) (userIdRef st) (length (events st)) = Some t"
  shows "outbox (handleRedo n st) = outbox st @ [\<lparr>body = Redo t, id_ev = n, seq = seqRef st, userId = userIdRef st\<rparr>]"
  using assms
  by (simp add: handleRedo_unfold createEvent_def broadcastEvent_def Let_def ingestEvent_def)

text \<open>
  Claim C4. Let position \<open>j\<close> hold the last \<open>stroke_end\<close> event of the log whose
  \<open>userId\<close> is the requesting user's. An undo request sends one new event, an undo
  targeting the stroke of that event, stamped with the fresh id, the current counter
  and the user; whether that stroke is already undone plays no role. A second undo
  request, after any admitted events that bring no \<open>stroke_end\<close> of this user, sends
  an undo targeting the same stroke again.
\<close>

theorem undo_targets_latest_own_stroke:
  assumes "j < length (events st)"
    and "body (events st ! j) = Stroke_end s" and "userId (events st ! j) = userIdRef st"
    and "\<forall>k. j < k \<and> k < length (events st) \<longrightarrow> \<not> own_stroke_end (userIdRef st) (events st ! k)"
    and "\<forall>e \<in> set mid. \<not> own_stroke_end (userIdRef st) e"
  shows "outbox (handleUndo n1 st) =
           outbox st @ [\<lparr>body = Undo s, id_ev = n1, seq = seqRef st, userId = userIdRef st\<rparr>] \<and>
         outbox (handleUndo n2 (fold ingestEvent mid (handleUndo n1 st))) =
           outbox st @ [\<lparr>body = Undo s, id_ev = n1, seq = seqRef st, userId = userIdRef st\<rparr>,
                        \<lparr>body = Undo s, id_ev = n2, seq = seqRef st + 1, userId = userIdRef st\<rparr>]"
proof -
  let ?u = "userIdRef st"
  let ?st1 = "handleUndo n1 st"
  let ?st2 = "fold ingestEvent mid ?st1"
  have scan: "undo_scan (events st) ?u (length (events st)) = Some s"
    using assms(1-4) by (rule undo_scan_last)
  note first = handleUndo_hit [OF scan, of n1]
  from first(4) obtain ys where ys: "events ?st1 = events st @ ys"
    "\<forall>e \<in> set ys. \<not> own_stroke_end ?u e" by blast
  from fold_ingest_events [of mid ?st1] obtain zs where zs: "events ?st2 = events ?st1 @ zs"
    "set zs \<subseteq> set mid" by blast
  from ys zs assms(5) have ev2: "events ?st2 = events st @ (ys @ zs)"
    and quiet: "\<forall>e \<in> set (ys @ zs). \<not> own_stroke_end ?u e" by auto
  have frame: "seqRef ?st2 = seqRef st + 1" "userIdRef ?st2 = ?u" "outbox ?st2 = outbox ?st1"
    by (simp_all add: fold_ingest_frame first)
  have "undo_scan (events ?st2) ?u (length (events ?st2)) = undo_scan (events st) ?u (length (events st))"
    unfolding ev2 using quiet by (rule undo_scan_append)
  with scan frame have "undo_scan (events ?st2) (userIdRef ?st2) (length (events ?st2)) = Some s"
    by simp
  from handleUndo_hit(1) [OF this, of n2] frame first(1) show ?thesis by simp
qed

theorem undo_targets_latest_own_stroke_witness:
  "let st = \<lparr>events = [\<lparr>body = Stroke_start ''S'' 0 0, id_ev = ''a'', seq = 0, userId = ''u1''\<rparr>,
                   \<lparr>body = Stroke_end ''S'', id_ev = ''c'', seq = 1, userId = ''u1''\<rparr>],
         seenEventIds = {''a'', ''c''}, seqRef = 2, userIdRef = ''u1'',
         cursors = Map.empty, outbox = []\<rparr>;
       other = \<lparr>body = Stroke_end ''T'', id_ev = ''x'', seq = 7, userId = ''u2''\<rparr>
   in Suc 1 = length (events st) \<and> body (events st ! 1) = Stroke_end ''S'' \<and>
      userId (events st ! 1) = userIdRef st \<and> \<not> own_stroke_end (userIdRef st) other \<and>
      ''S'' \<in> undoneStrokes (events (handleUndo ''d1'' st)) \<and>
      outbox (handleUndo ''d2'' (fold ingestEvent [other] (handleUndo ''d1'' st))) =
        [\<lparr>body = Undo ''S'', id_ev = ''d1'', seq = 2, userId = ''u1''\<rparr>,
         \<lparr>body = Undo ''S'', id_ev = ''d2'', seq = 3, userId = ''u1''\<rparr>]"
proof -
  let ?st = "\<lparr>events = [\<lparr>body = Stroke_start ''S'' 0 0, id_ev = ''a'', seq = 0, userId = ''u1''\<rparr>,
               \<lparr>body = Stroke_end ''S'', id_ev = ''c'', seq = 1, userId = ''u1''\<rparr>],
     seenEventIds = {''a'', ''c''}, seqRef = 2, userIdRef = ''u1'',
     cursors = Map.empty, outbox = []\<rparr>"
  let ?other = "\<lparr>body = Stroke_end ''T'', id_ev = ''x'', seq = 7, userId = ''u2''\<rparr>"
  have "''S'' \<in> undoneStrokes (events (handleUndo ''d1'' ?st))"
    by (simp add: handleUndo_def createEvent_def broadcastEvent_def ingestEvent_def
        undoneStrokes_spec spec_undoneStrokeIds_def spec_redoneUndoIds_def)
  with undo_targets_latest_own_stroke [of 1 ?st "''S''" "[?other]" "''d1''" "''d2''"]
  show ?thesis by (simp add: Let_def own_stroke_end_def)
qed

text \<open>
  Claim C5 as stated fails on the qualifier "not-yet-redone". The user has ended stroke
  \<open>S\<close> and clicks undo, undo, redo, redo. Both undo events target \<open>S\<close>; the first
  redo targets the second undo \<open>d2\<close>; the second redo targets \<open>d2\<close> again, although
  \<open>d2\<close> is already redone by then and the user's undo \<open>d1\<close> is not.
\<close>

theorem redo_scoping_counterexample:
  "outbox (fold step [UndoClick ''d1'', UndoClick ''d2'', RedoClick ''r1'', RedoClick ''r2'']
      \<lparr>events = [\<lparr>body = Stroke_start ''S'' 0 0, id_ev = ''a'', seq = 0, userId = ''u1''\<rparr>,
                 \<lparr>body = Stroke_end ''S'', id_ev = ''c'', seq = 1, userId = ''u1''\<rparr>],
       seenEventIds = {''a'', ''c''}, seqRef = 2, userIdRef = ''u1'', cursors = Map.empty, outbox = []\<rparr>) =
     [\<lparr>body = Undo ''S'', id_ev = ''d1'', seq = 2, userId = ''u1''\<rparr>,
      \<lparr>body = Undo ''S'', id_ev = ''d2'', seq = 3, userId = ''u1''\<rparr>,
      \<lparr>body = Redo ''d2'', id_ev = ''r1'', seq = 4, userId = ''u1''\<rparr>,
      \<lparr>body = Redo ''d2'', id_ev = ''r2'', seq = 5, userId = ''u1''\<rparr>] \<and>
   ''d2'' \<in> redoneUndoIds (events (fold step [UndoClick ''d1'', UndoClick ''d2'', RedoClick ''r1'']
      \<lparr>events = [\<lparr>body = Stroke_start ''S'' 0 0, id_ev = ''a'', seq = 0, userId = ''u1''\<rparr>,
                 \<lparr>body = Stroke_end ''S'', id_ev = ''c'', seq = 1, userId = ''u1''\<rparr>],
       seenEventIds = {''a'', ''c''}, seqRef = 2, userIdRef = ''u1'', cursors = Map.empty, outbox = []\<rparr>)) \<and>
   ''d1'' \<notin> redoneUndoIds (events (fold step [UndoClick ''d1'', UndoClick ''d2'', RedoClick ''r1'']
      \<lparr>events = [\<lparr>body = Stroke_start ''S'' 0 0, id_ev = ''a'', seq = 0, userId = ''u1''\<rparr>,
                 \<lparr>body = Stroke_end ''S'', id_ev = ''c'', seq = 1, userId = ''u1''\<rparr>],
       seenEventIds = {''a'', ''c''}, seqRef = 2, userIdRef = ''u1'', cursors = Map.empty, outbox = []\<rparr>))"
  by (simp add: handleUndo_def handleRedo_def createEvent_def broadcastEvent_def ingestEvent_def
      redoneUndoIds_spec spec_redoneUndoIds_def)

text \<open>
  Claim C5, amended. Let position \<open>j\<close> hold the last undo event of the log whose
  \<open>userId\<close> is the requesting user's. A redo request sends one new event, a redo
  targeting the id of that event, whether or not it is already redone: never an undo of
  another user, never an earlier undo of the same user.
\<close>

theorem redo_targets_latest_own_undo:
  assumes "j < length (events st)"
    and "body (events st ! j) = Undo t" and "userId (events st ! j) = userIdRef st"
    and "\<forall>k. j < k \<and> k < length (events st) \<longrightarrow> \<not> own_undo (userIdRef st) (events st ! k)"
  shows "outbox (handleRedo n st) =
           outbox st @ [\<lparr>body = Redo (id_ev (events st ! j)), id_ev = n, seq = seqRef st,
                         userId = userIdRef st\<rparr>]"
proof -
  have "redo_scan (events st) (userIdRef st) (length (events st)) = Some (id_ev (events st ! j))"
    using assms by (rule redo_scan_last)
  then show ?thesis by (rule handleRedo_hit)
qed

theorem redo_targets_latest_own_undo_witness:
  "let st = \<lparr>events = [\<lparr>body = Stroke_end ''S'', id_ev = ''c'', seq = 1, userId = ''u1''\<rparr>,
                   \<lparr>body = Undo ''S'', id_ev = ''d1'', seq = 2, userId = ''u1''\<rparr>,
                   \<lparr>body = Undo ''S'', id_ev = ''d2'', seq = 3, userId = ''u1''\<rparr>,
                   \<lparr>body = Redo ''d2'', id_ev = ''r1'', seq = 4, userId = ''u1''\<rparr>],
         seenEventIds = {''c'', ''d1'', ''d2'', ''r1''}, seqRef = 5, userIdRef = ''u1'',
         cursors = Map.empty, outbox = []\<rparr>
   in 2 < length (events st) \<and> body (events st ! 2) = Undo ''S'' \<and>
      userId (events st ! 2) = userIdRef st \<and>
      list_all (\<lambda>e. \<not> own_undo (userIdRef st) e) (drop 3 (events st)) \<and>
      outbox (handleRedo ''r2'' st) =
        [\<lparr>body = Redo ''d2'', id_ev = ''r2'', seq = 5, userId = ''u1''\<rparr>]"
proof -
  let ?st = "\<lparr>events = [\<lparr>body = Stroke_end ''S'', id_ev = ''c'', seq = 1, userId = ''u1''\<rparr>,
               \<lparr>body = Undo ''S'', id_ev = ''d1'', seq = 2, userId = ''u1''\<rparr>,
               \<lparr>body = Undo ''S'', id_ev = ''d2'', seq = 3, userId = ''u1''\<rparr>,
               \<lparr>body = Redo ''d2'', id_ev = ''r1'', seq = 4, userId = ''u1''\<rparr>],
     seenEventIds = {''c'', ''d1'', ''d2'', ''r1''}, seqRef = 5, userIdRef = ''u1'',
     cursors = Map.empty, outbox = []\<rparr>"
  have "\<forall>k. 2 < k \<and> k < length (events ?st) \<longrightarrow> \<not> own_undo (userIdRef ?st) (events ?st ! k)"
  proof (intro allI impI)
    fix k :: nat
    assume "2 < k \<and> k < length (events ?st)"
    then have "k = 3" by simp
    then show "\<not> own_undo (userIdRef ?st) (events ?st ! k)" by (simp add: own_undo_def)
  qed
  with redo_targets_latest_own_undo [of 2 ?st "''S''" "''r2''"]
  show ?thesis by (simp add: Let_def own_undo_def)
qed

text \<open>
  Claim C7. When the log holds no \<open>stroke_end\<close> event of the requesting user, an undo
  request returns the state as it is: no event is created or sent, the counter, the log
  and the seen set stay, and so does the drawing. The same holds for a redo request
  when the log holds no undo event of the requesting user.
\<close>

theorem no_target_no_op:
  "((\<forall>e \<in> set (events st). \<not> own_stroke_end (userIdRef st) e) \<longrightarrow> handleUndo n st = st) \<and>
   ((\<forall>e \<in> set (events st). \<not> own_undo (userIdRef st) e) \<longrightarrow> handleRedo n st = st)"
  by (simp add: handleUndo_unfold handleRedo_unfold undo_scan_none redo_scan_none)

theorem no_target_no_op_witness:
  "let st = \<lparr>events = [\<lparr>body = Stroke_end ''T'', id_ev = ''x'', seq = 7, userId = ''u2''\<rparr>,
                   \<lparr>body = Undo ''T'', id_ev = ''y'', seq = 8, userId = ''u2''\<rparr>],
         seenEventIds = {''x'', ''y''}, seqRef = 0, userIdRef = ''u1'',
         cursors = Map.empty, outbox = []\<rparr>
   in list_all (\<lambda>e. \<not> own_stroke_end (userIdRef st) e) (events st) \<and>
      list_all (\<lambda>e. \<not> own_undo (userIdRef st) e) (events st) \<and>
      handleUndo ''n1'' st = st \<and> handleRedo ''n2'' st = st"
proof -
  let ?st = "\<lparr>events = [\<lparr>body = Stroke_end ''T'', id_ev = ''x'', seq = 7, userId = ''u2''\<rparr>,
               \<lparr>body = Undo ''T'', id_ev = ''y'', seq = 8, userId = ''u2''\<rparr>],
     seenEventIds = {''x'', ''y''}, seqRef = 0, userIdRef = ''u1'',
     cursors = Map.empty, outbox = []\<rparr>"
  have a: "\<forall>e \<in> set (events ?st). \<not> own_stroke_end (userIdRef ?st) e"
    by (simp add: own_stroke_end_def)
  have b: "\<forall>e \<in> set (events ?st). \<not> own_undo (userIdRef ?st) e"
    by (simp add: own_undo_def)
  from a b no_target_no_op [of ?st "''n1''"] no_target_no_op [of ?st "''n2''"]
  show ?thesis unfolding Let_def list_all_iff by blast
qed

section \<open>Relay fan-out\<close>










section \<open>Presence\<close>

text \<open>
  The presence map under the updater of \<open>setCursors\<close>.
\<close>

lemma fold_update_cursor:
  "fold update_cursor ds m u =
     (case find (\<lambda>d. cursor_userId d = u) (rev ds) of None \<Rightarrow> m u | Some d \<Rightarrow> Some d)"
  by (induction ds rule: rev_induct) (simp_all add: update_cursor_def)

text \<open>
  Claim C9. An update stores its payload under its \<open>userId\<close>; a second update for the
  same \<open>userId\<close> leaves the map as if the first had never been applied; an update
  leaves the slot of every other \<open>userId\<close> as it was. After any sequence of updates
  the slot of a user holds the last update of the sequence for that user, or its old
  content when there is none. The message handler applies the updater to every presence
  frame except those carrying the participant's own id, which it drops.
\<close>

theorem presence_last_write_wins:
  "update_cursor d2 m (cursor_userId d2) = Some d2 \<and>
   (cursor_userId d1 = cursor_userId d2 \<longrightarrow> update_cursor d2 (update_cursor d1 m) = update_cursor d2 m) \<and>
   (v \<noteq> cursor_userId d2 \<longrightarrow> update_cursor d2 m v = m v) \<and>
   fold update_cursor ds m v =
     (case find (\<lambda>d. cursor_userId d = v) (rev ds) of None \<Rightarrow> m v | Some d \<Rightarrow> Some d) \<and>
   (cursor_userId d1 = cursor_userId d2 \<and> cursor_userId d2 \<noteq> userIdRef st \<longrightarrow>
      cursors (onmessage (CursorMsg d2) (onmessage (CursorMsg d1) st)) (cursor_userId d2) = Some d2) \<and>
   (v \<noteq> cursor_userId d2 \<longrightarrow> cursors (onmessage (CursorMsg d2) st) v = cursors st v)"
  by (simp add: fold_update_cursor) (simp add: update_cursor_def onmessage_def)

theorem presence_last_write_wins_witness:
  "let d1 = \<lparr>cursor_userId = ''u2'', cursor_x = 1, cursor_y = 2, color = ''red''\<rparr>;
       d2 = \<lparr>cursor_userId = ''u2'', cursor_x = 30, cursor_y = 40, color = ''blue''\<rparr>;
       st = init ''u1''
   in cursor_userId d1 = cursor_userId d2 \<and> cursor_userId d2 \<noteq> userIdRef st \<and>
      ''u3'' \<noteq> cursor_userId d2 \<and>
      cursors (onmessage (CursorMsg d2) (onmessage (CursorMsg d1) st)) ''u2'' = Some d2 \<and>
      cursors (onmessage (CursorMsg d2) st) ''u3'' = None"
  using presence_last_write_wins [of
      "\<lparr>cursor_userId = ''u2'', cursor_x = 30, cursor_y = 40, color = ''blue''\<rparr>" "cursors (init ''u1'')"
      "\<lparr>cursor_userId = ''u2'', cursor_x = 1, cursor_y = 2, color = ''red''\<rparr>" "''u3''" "[]" "init ''u1''"]
  by (simp add: Let_def init_def)

end
